theory Spec2Isabelle
  imports Main
begin

section \<open>XML elements and Python dictionaries\<close>

text \<open>
  An \<open>xml.etree.ElementTree.Element\<close>: its \<open>tag\<close>, its \<open>attrib\<close> dictionary (an XML
  element has no two attributes of one name, so order plays no role and a map is enough)
  and its child elements in document order.
\<close>

datatype element = Element (tag: string) (attrib: "string \<rightharpoonup> string") (children: "element list")

text \<open>
  A Python \<open>dict\<close> (also \<open>Counter\<close> and \<open>defaultdict\<close>) keeps its keys in insertion order:
  an association list. \<open>d[k] = v\<close> overwrites the value of a key already there, in place,
  and appends a new key at the end. Lookup is \<open>map_of\<close>, which reads the same (first)
  occurrence that \<open>dict_set\<close> writes.
\<close>

type_synonym ('k, 'v) dict = "('k \<times> 'v) list"

fun dict_set :: "('k, 'v) dict \<Rightarrow> 'k \<Rightarrow> 'v \<Rightarrow> ('k, 'v) dict" where
  "dict_set [] k v = [(k, v)]"
| "dict_set ((k', v') # d) k v = (if k' = k then (k, v) # d else (k', v') # dict_set d k v)"

text \<open>\<open>c[k]\<close> of a \<open>Counter\<close>: a missing key reads as 0 (and is not inserted by the read).\<close>

definition counter_get :: "('k, nat) dict \<Rightarrow> 'k \<Rightarrow> nat" where
  "counter_get c k = (case map_of c k of None \<Rightarrow> 0 | Some n \<Rightarrow> n)"

text \<open>\<open>c[k] += 1\<close> of a \<open>Counter\<close>.\<close>

definition counter_inc :: "('k, nat) dict \<Rightarrow> 'k \<Rightarrow> ('k, nat) dict" where
  "counter_inc c k = dict_set c k (counter_get c k + 1)"

text \<open>
  \<open>d[k]\<close> of a \<open>defaultdict\<close> whose factory builds an empty container (\<open>Counter()\<close>,
  \<open>list()\<close>): a missing key reads as the empty container.
\<close>

definition default_get :: "('k, 'v list) dict \<Rightarrow> 'k \<Rightarrow> 'v list" where
  "default_get d k = (case map_of d k of None \<Rightarrow> [] | Some x \<Rightarrow> x)"

section \<open>The streaming aggregator (guimon3.py, OSMParserThread)\<close>

text \<open>
  \<open>ET.iterparse(path, events=("start", "end"))\<close> is an iterator: it is exhausted, or it
  raises (malformed XML), or it yields an event with the element it concerns and goes
  on. An event carries its element as the loop body finds it when the event is
  delivered; \<open>elem.clear()\<close> and \<open>root.clear()\<close> release elements whose event has been
  handled and have no place in the model. The progress callback is taken to return.
\<close>

datatype event = Start | End

datatype iterator = Stop | Raise | Yield event element iterator

text \<open>The exceptions that the two programs can end with.\<close>

datatype error = ParseError | StopIteration | ValueError | TypeError

text \<open>
  The fields of the thread object (\<open>tag_counts\<close>, \<open>values_map\<close>, \<open>objects_map\<close>), the
  locals of \<open>_parse\<close> (\<open>elements_processed\<close>, \<open>last_report\<close>), the number of calls of
  \<open>time.time()\<close> made so far, and the counts handed to \<open>progress_callback\<close>, oldest first.
\<close>

record 't parser =
  tag_counts :: "(string, nat) dict"
  values_map :: "(string, (string, nat) dict) dict"
  objects_map :: "(string \<times> string, (string \<times> string \<times> string) list) dict"
  elements_processed :: nat
  last_report :: 't
  ticks :: nat
  delivered :: "nat list"

text \<open>Lines 39-45: the local dictionary \<open>tags\<close> built from the children of one element.\<close>

fun collect_tags :: "element list \<Rightarrow> (string, string) dict \<Rightarrow> (string, string) dict" where
  "collect_tags [] tags = tags"
| "collect_tags (child # rest) tags =
     collect_tags rest
       (if tag child = ''tag'' then
          (case attrib child ''k'' of
             None \<Rightarrow> tags
           | Some k \<Rightarrow>
               (case attrib child ''v'' of
                  None \<Rightarrow> tags
                | Some v \<Rightarrow> dict_set tags k v))
        else tags)"

text \<open>Line 53: \<open>name if name is not None else 'unnamed key-value'\<close>.\<close>

definition entry_name :: "string option \<Rightarrow> string" where
  "entry_name name = (case name of Some n \<Rightarrow> n | None \<Rightarrow> ''unnamed key-value'')"

text \<open>Lines 50-54: the loop over \<open>tags.items()\<close>.\<close>

fun record_tags ::
  "string \<Rightarrow> string \<Rightarrow> string option \<Rightarrow> (string, string) dict \<Rightarrow> 't parser \<Rightarrow> 't parser" where
  "record_tags obj_type obj_id name [] s = s"
| "record_tags obj_type obj_id name ((k, v) # items) s =
     record_tags obj_type obj_id name items
       (s\<lparr>tag_counts := counter_inc (tag_counts s) k,
          values_map := dict_set (values_map s) k (counter_inc (default_get (values_map s) k) v),
          objects_map := dict_set (objects_map s) (k, v)
             (default_get (objects_map s) (k, v) @ [(obj_type, obj_id, entry_name name)])\<rparr>)"

text \<open>Line 48: \<open>elem.attrib.get('id') or ''\<close>.\<close>

definition obj_id_of :: "element \<Rightarrow> string" where
  "obj_id_of elem = (case attrib elem ''id'' of None \<Rightarrow> '''' | Some i \<Rightarrow> if i = '''' then '''' else i)"

text \<open>
  Lines 58-60. \<open>time n\<close> is what the \<open>n\<close>-th call of \<open>time.time()\<close> returns and
  \<open>due now last\<close> is the test \<open>(now - last) > 0.5\<close> on two such readings; both are
  parameters, so nothing is assumed about the clock or about floating-point
  subtraction. \<open>cb\<close> says whether a \<open>progress_callback\<close> was given; without one the clock
  is not read.
\<close>

definition report :: "(nat \<Rightarrow> 't) \<Rightarrow> ('t \<Rightarrow> 't \<Rightarrow> bool) \<Rightarrow> bool \<Rightarrow> 't parser \<Rightarrow> 't parser" where
  "report time due cb s =
     (if cb then
        (if due (time (ticks s)) (last_report s) then
           s\<lparr>delivered := delivered s @ [elements_processed s],
             last_report := time (ticks s + 1),
             ticks := ticks s + 2\<rparr>
         else s\<lparr>ticks := ticks s + 1\<rparr>)
      else s)"

text \<open>Lines 37-60: the body of the \<open>for\<close> loop, for one event.\<close>

definition is_object :: "element \<Rightarrow> bool" where
  "is_object elem \<longleftrightarrow> tag elem = ''node'' \<or> tag elem = ''way'' \<or> tag elem = ''relation''"

definition body ::
  "(nat \<Rightarrow> 't) \<Rightarrow> ('t \<Rightarrow> 't \<Rightarrow> bool) \<Rightarrow> bool \<Rightarrow> event \<Rightarrow> element \<Rightarrow> 't parser \<Rightarrow> 't parser" where
  "body time due cb ev elem s =
     (if ev = End \<and> is_object elem then
        (let s1 = s\<lparr>elements_processed := elements_processed s + 1\<rparr>;
             tags = collect_tags (children elem) [];
             s2 = (if tags \<noteq> [] then
                     record_tags (tag elem) (obj_id_of elem) (map_of tags ''name'') tags s1
                   else s1)
         in report time due cb s2)
      else s)"

text \<open>Line 36: the \<open>for\<close> loop. An exception of the iterator ends the run.\<close>

fun for_loop ::
  "(nat \<Rightarrow> 't) \<Rightarrow> ('t \<Rightarrow> 't \<Rightarrow> bool) \<Rightarrow> bool \<Rightarrow> iterator \<Rightarrow> 't parser \<Rightarrow> error + 't parser" where
  "for_loop time due cb Stop s = Inr s"
| "for_loop time due cb Raise s = Inl ParseError"
| "for_loop time due cb (Yield ev elem context) s =
     for_loop time due cb context (body time due cb ev elem s)"

text \<open>
  \<open>_parse\<close> (lines 30-63), on the thread object as \<open>__init__\<close> leaves it. \<open>run\<close> stores an
  exception in \<open>self.error\<close>, and \<open>on_finished\<close> then takes nothing from the thread: the
  result of a failed run is the error alone.
\<close>

definition parse ::
  "(nat \<Rightarrow> 't) \<Rightarrow> ('t \<Rightarrow> 't \<Rightarrow> bool) \<Rightarrow> bool \<Rightarrow> iterator \<Rightarrow> error + 't parser" where
  "parse time due cb context =
     (case context of
        Stop \<Rightarrow> Inl StopIteration
      | Raise \<Rightarrow> Inl ParseError
      | Yield _ root rest \<Rightarrow>
          (case for_loop time due cb rest
                  \<lparr>tag_counts = [], values_map = [], objects_map = [],
                   elements_processed = 0, last_report = time 0, ticks = 1, delivered = []\<rparr> of
             Inl e \<Rightarrow> Inl e
           | Inr s \<Rightarrow>
               Inr (if cb then s\<lparr>delivered := delivered s @ [elements_processed s]\<rparr> else s)))"

section \<open>The citation line (guimon3.py, OSMExplorerApp._format_object)\<close>

text \<open>
  \<open>str.capitalize()\<close>: the first character in upper case, the others in lower case. The
  model converts the letters of ASCII; the kinds that reach the function are \<open>node\<close>,
  \<open>way\<close> and \<open>relation\<close>.
\<close>

definition upper_char :: "char \<Rightarrow> char" where
  "upper_char c =
     (case map_of (zip ''abcdefghijklmnopqrstuvwxyz'' ''ABCDEFGHIJKLMNOPQRSTUVWXYZ'') c of
        Some u \<Rightarrow> u
      | None \<Rightarrow> c)"

definition lower_char :: "char \<Rightarrow> char" where
  "lower_char c =
     (case map_of (zip ''ABCDEFGHIJKLMNOPQRSTUVWXYZ'' ''abcdefghijklmnopqrstuvwxyz'') c of
        Some l \<Rightarrow> l
      | None \<Rightarrow> c)"

fun capitalize :: "string \<Rightarrow> string" where
  "capitalize [] = []"
| "capitalize (c # cs) = upper_char c # map lower_char cs"

definition format_object :: "string \<times> string \<times> string \<Rightarrow> string" where
  "format_object obj_tuple =
     (case obj_tuple of (typ, oid, name) \<Rightarrow>
        (let template_type = capitalize typ;
             safe_name = (if name \<noteq> '''' then name else ''unnamed key-value'')
         in ''* {{'' @ template_type @ ''|'' @ oid @ ''|'' @ safe_name @ ''}}''))"

section \<open>The batch analyzer (proc.py, analyze_osm_xml)\<close>

text \<open>
  A \<open>datetime\<close> is naive or aware, and is read here through its position on the time
  line in microseconds (wall-clock time for a naive one, UTC for an aware one): that is
  what comparison and subtraction look at. Comparing or subtracting a naive and an aware
  one raises \<open>TypeError\<close>.
\<close>

datatype datetime = Naive int | Aware int

fun dt_lt :: "datetime \<Rightarrow> datetime \<Rightarrow> error + bool" where
  "dt_lt (Naive a) (Naive b) = Inr (a < b)"
| "dt_lt (Aware a) (Aware b) = Inr (a < b)"
| "dt_lt _ _ = Inl TypeError"

fun dt_sub :: "datetime \<Rightarrow> datetime \<Rightarrow> error + int" where
  "dt_sub (Naive a) (Naive b) = Inr (a - b)"
| "dt_sub (Aware a) (Aware b) = Inr (a - b)"
| "dt_sub _ _ = Inl TypeError"

text \<open>
  The builtins \<open>min\<close> and \<open>max\<close> on a list: \<open>ValueError\<close> on the empty list; otherwise
  the first element is the candidate and a later one replaces it when it is strictly
  smaller (for \<open>max\<close>: strictly greater).
\<close>

fun min_loop :: "datetime \<Rightarrow> datetime list \<Rightarrow> error + datetime" where
  "min_loop m [] = Inr m"
| "min_loop m (x # xs) =
     (case dt_lt x m of Inl e \<Rightarrow> Inl e | Inr b \<Rightarrow> min_loop (if b then x else m) xs)"

fun max_loop :: "datetime \<Rightarrow> datetime list \<Rightarrow> error + datetime" where
  "max_loop m [] = Inr m"
| "max_loop m (x # xs) =
     (case dt_lt m x of Inl e \<Rightarrow> Inl e | Inr b \<Rightarrow> max_loop (if b then x else m) xs)"

definition py_min :: "datetime list \<Rightarrow> error + datetime" where
  "py_min xs = (case xs of [] \<Rightarrow> Inl ValueError | x # rest \<Rightarrow> min_loop x rest)"

definition py_max :: "datetime list \<Rightarrow> error + datetime" where
  "py_max xs = (case xs of [] \<Rightarrow> Inl ValueError | x # rest \<Rightarrow> max_loop x rest)"

text \<open>Lines 12-15: the four accumulators.\<close>

record analysis =
  timestamps :: "datetime list"
  contributors :: "(string, nat) dict"
  tags_counter :: "(string, nat) dict"
  contrib_timestamps :: "(string, datetime list) dict"

text \<open>\<open>ts.replace("Z", "+00:00")\<close>: every \<open>Z\<close> of the string is replaced.\<close>

definition replace_Z :: "string \<Rightarrow> string" where
  "replace_Z ts = concat (map (\<lambda>c. if c = CHR ''Z'' then ''+00:00'' else [c]) ts)"

text \<open>
  Lines 23-30. \<open>if ts and user\<close> is Python truth: the attribute is there and its value is
  not the empty string. \<open>fromisoformat\<close> is the library parser, a parameter of the model:
  \<open>None\<close> is its \<open>ValueError\<close>.
\<close>

definition truthy :: "string option \<Rightarrow> bool" where
  "truthy x = (case x of None \<Rightarrow> False | Some s \<Rightarrow> s \<noteq> [])"

definition collect_metadata ::
  "(string \<Rightarrow> datetime option) \<Rightarrow> element \<Rightarrow> analysis \<Rightarrow> error + analysis" where
  "collect_metadata fromisoformat elem a =
     (let ts = attrib elem ''timestamp''; user = attrib elem ''user'' in
      if truthy ts \<and> truthy user then
        (case fromisoformat (replace_Z (the ts)) of
           None \<Rightarrow> Inl ValueError
         | Some dt \<Rightarrow>
             Inr (a\<lparr>timestamps := timestamps a @ [dt],
                    contributors := counter_inc (contributors a) (the user),
                    contrib_timestamps := dict_set (contrib_timestamps a) (the user)
                      (default_get (contrib_timestamps a) (the user) @ [dt])\<rparr>))
      else Inr a)"

text \<open>Lines 33-36: \<open>elem.findall("tag")\<close> are the children whose tag is \<open>tag\<close>.\<close>

fun count_tags :: "element list \<Rightarrow> (string, nat) dict \<Rightarrow> (string, nat) dict" where
  "count_tags [] c = c"
| "count_tags (t # rest) c =
     count_tags rest
       (if tag t = ''tag'' then
          (if truthy (attrib t ''k'') then counter_inc c (the (attrib t ''k'')) else c)
        else c)"

text \<open>Lines 19-36: the loop body for one child of the root.\<close>

definition visit ::
  "(string \<Rightarrow> datetime option) \<Rightarrow> element \<Rightarrow> analysis \<Rightarrow> error + analysis" where
  "visit fromisoformat elem a =
     (if \<not> is_object elem then Inr a
      else
        (case collect_metadata fromisoformat elem a of
           Inl e \<Rightarrow> Inl e
         | Inr a1 \<Rightarrow> Inr (a1\<lparr>tags_counter := count_tags (children elem) (tags_counter a1)\<rparr>)))"

text \<open>Line 18: the loop over \<open>root.findall("./*")\<close>, the children of the root.\<close>

fun scan ::
  "(string \<Rightarrow> datetime option) \<Rightarrow> element list \<Rightarrow> analysis \<Rightarrow> error + analysis" where
  "scan fromisoformat [] a = Inr a"
| "scan fromisoformat (elem # rest) a =
     (case visit fromisoformat elem a of
        Inl e \<Rightarrow> Inl e
      | Inr a1 \<Rightarrow> scan fromisoformat rest a1)"

text \<open>
  \<open>Counter.most_common()\<close> and \<open>sorted(..., reverse=True)\<close>: descending by the key, items
  with equal keys in their original order.
\<close>

definition most_common :: "(string, nat) dict \<Rightarrow> (string \<times> nat) list" where
  "most_common c = sort_key (\<lambda>item. - int (snd item)) c"

text \<open>Lines 48-53: the lifespan of every contributor.\<close>

fun lifespans ::
  "(string \<times> datetime list) list \<Rightarrow> (string, int) dict \<Rightarrow> error + (string, int) dict" where
  "lifespans [] lifespan = Inr lifespan"
| "lifespans ((user, tslist) # items) lifespan =
     (case py_min tslist of
        Inl e \<Rightarrow> Inl e
      | Inr oldest_user \<Rightarrow>
          (case py_max tslist of
             Inl e \<Rightarrow> Inl e
           | Inr newest_user \<Rightarrow>
               (case dt_sub newest_user oldest_user of
                  Inl e \<Rightarrow> Inl e
                | Inr span \<Rightarrow> lifespans items (dict_set lifespan user span))))"

text \<open>What the function goes on to print.\<close>

record summary =
  oldest :: datetime
  newest :: datetime
  top_contribs :: "(string \<times> nat) list"
  top_tags :: "(string \<times> nat) list"
  lifespan_ranked :: "(string \<times> int) list"

text \<open>
  \<open>analyze_osm_xml\<close> on the root element that \<open>ET.parse\<close> returned, up to the values it
  prints.
\<close>

definition analyze_osm_xml :: "(string \<Rightarrow> datetime option) \<Rightarrow> element \<Rightarrow> error + summary" where
  "analyze_osm_xml fromisoformat root =
     (case scan fromisoformat (children root)
             \<lparr>timestamps = [], contributors = [], tags_counter = [], contrib_timestamps = []\<rparr> of
        Inl e \<Rightarrow> Inl e
      | Inr a \<Rightarrow>
          (case py_min (timestamps a) of
             Inl e \<Rightarrow> Inl e
           | Inr oldest_ts \<Rightarrow>
               (case py_max (timestamps a) of
                  Inl e \<Rightarrow> Inl e
                | Inr newest_ts \<Rightarrow>
                    (case lifespans (contrib_timestamps a) [] of
                       Inl e \<Rightarrow> Inl e
                     | Inr lifespan \<Rightarrow>
                         Inr \<lparr>oldest = oldest_ts, newest = newest_ts,
                              top_contribs = most_common (contributors a),
                              top_tags = most_common (tags_counter a),
                              lifespan_ranked = sort_key (\<lambda>item. - snd item) lifespan\<rparr>))))"

section \<open>Notions used to state the properties\<close>

text \<open>The tag mapping of an object (the local \<open>tags\<close>) and the tuple filed for it.\<close>

definition tags_of :: "element \<Rightarrow> (string, string) dict" where
  "tags_of elem = collect_tags (children elem) []"

definition entry_of :: "element \<Rightarrow> string \<times> string \<times> string" where
  "entry_of elem = (tag elem, obj_id_of elem, entry_name (map_of (tags_of elem) ''name''))"

text \<open>
  The \<open>(k, v)\<close> pairs of the tag children that have both attributes, in document order,
  repetitions included.
\<close>

fun tag_pairs :: "element list \<Rightarrow> (string \<times> string) list" where
  "tag_pairs [] = []"
| "tag_pairs (child # rest) =
     (if tag child = ''tag'' then
        (case (attrib child ''k'', attrib child ''v'') of
           (Some k, Some v) \<Rightarrow> [(k, v)]
         | _ \<Rightarrow> [])
      else []) @ tag_pairs rest"

text \<open>
  The \<open>node\<close>, \<open>way\<close> and \<open>relation\<close> elements whose end event an iterator delivers, in
  order; \<open>processed\<close> are those the loop of a run handles, the first event going to
  \<open>next(context)\<close>.
\<close>

fun handled :: "iterator \<Rightarrow> element list" where
  "handled Stop = []"
| "handled Raise = []"
| "handled (Yield ev elem context) =
     (if ev = End \<and> is_object elem then [elem] else []) @ handled context"

definition processed :: "iterator \<Rightarrow> element list" where
  "processed ctx = (case ctx of Yield _ _ rest \<Rightarrow> handled rest | _ \<Rightarrow> [])"

text \<open>The tag children of the top-level objects of a document, for the analyzer.\<close>

definition tag_children :: "element list \<Rightarrow> element list" where
  "tag_children elems = filter (\<lambda>t. tag t = ''tag'') (concat (map children (filter is_object elems)))"

text \<open>The accumulators of the analyzer before its loop.\<close>

definition start :: analysis where
  "start = \<lparr>timestamps = [], contributors = [], tags_counter = [], contrib_timestamps = []\<rparr>"

text \<open>Invariants of the aggregator's loop.\<close>

definition sums_agree :: "'t parser \<Rightarrow> bool" where
  "sums_agree s \<longleftrightarrow>
     (\<forall>k. map_of (tag_counts s) k =
            map_option (\<lambda>c. sum_list (map snd c)) (map_of (values_map s) k))"

definition keys_distinct :: "'t parser \<Rightarrow> bool" where
  "keys_distinct s \<longleftrightarrow>
     distinct (map fst (tag_counts s)) \<and> distinct (map fst (values_map s)) \<and>
     distinct (map fst (objects_map s)) \<and>
     (\<forall>k c. map_of (values_map s) k = Some c \<longrightarrow> distinct (map fst c))"

definition reports_ok :: "'t parser \<Rightarrow> bool" where
  "reports_ok s \<longleftrightarrow> sorted (delivered s) \<and> (\<forall>n \<in> set (delivered s). n \<le> elements_processed s)"

section \<open>Sample documents\<close>

text \<open>
  The scenario of the specification: a node 1 with \<open>name=Cafe\<close> and \<open>amenity=cafe\<close>, a
  way 2 with \<open>amenity=cafe\<close>, and the state in which a run on them ends (with a clock that
  counts its readings and a report due when more than two readings have gone by).
\<close>

definition cafe_node :: element where
  "cafe_node = Element ''node'' [''id'' \<mapsto> ''1'']
     [Element ''tag'' [''k'' \<mapsto> ''name'', ''v'' \<mapsto> ''Cafe''] [],
      Element ''tag'' [''k'' \<mapsto> ''amenity'', ''v'' \<mapsto> ''cafe''] []]"

definition cafe_way :: element where
  "cafe_way = Element ''way'' [''id'' \<mapsto> ''2'']
     [Element ''tag'' [''k'' \<mapsto> ''amenity'', ''v'' \<mapsto> ''cafe''] []]"

definition osm_root :: element where
  "osm_root = Element ''osm'' Map.empty []"

definition cafe_events :: iterator where
  "cafe_events =
     Yield Start osm_root (Yield Start cafe_node (Yield End cafe_node
       (Yield Start cafe_way (Yield End cafe_way (Yield End osm_root Stop)))))"

definition cafe_result :: "nat parser" where
  "cafe_result =
     \<lparr>tag_counts = [(''name'', 1), (''amenity'', 2)],
      values_map = [(''name'', [(''Cafe'', 1)]), (''amenity'', [(''cafe'', 2)])],
      objects_map =
        [((''name'', ''Cafe''), [(''node'', ''1'', ''Cafe'')]),
         ((''amenity'', ''cafe''),
          [(''node'', ''1'', ''Cafe''), (''way'', ''2'', ''unnamed key-value'')])],
      elements_processed = 2, last_report = 0, ticks = 3, delivered = [2]\<rparr>"

text \<open>A parser state with empty tables.\<close>

definition blank :: "nat parser" where
  "blank = \<lparr>tag_counts = [], values_map = [], objects_map = [],
            elements_processed = 0, last_report = 0, ticks = 1, delivered = []\<rparr>"

text \<open>A node with the key \<open>name\<close> on two tag children.\<close>

definition renamed_node :: element where
  "renamed_node = Element ''node'' [''id'' \<mapsto> ''3'']
     [Element ''tag'' [''k'' \<mapsto> ''name'', ''v'' \<mapsto> ''Old''] [],
      Element ''tag'' [''k'' \<mapsto> ''name'', ''v'' \<mapsto> ''New''] []]"

text \<open>A node whose tag children lack \<open>v\<close> or \<open>k\<close>.\<close>

definition halfway_node :: element where
  "halfway_node = Element ''node'' [''id'' \<mapsto> ''4'']
     [Element ''tag'' [''k'' \<mapsto> ''shop''] [], Element ''tag'' [''v'' \<mapsto> ''yes''] []]"

text \<open>
  For the analyzer: a node with a timestamp and no user, one with an empty user, one with
  both, one whose timestamp is no date, and one with tag children of the key \<open>shop\<close>
  (once without \<open>v\<close>) and of the empty key; a parser of timestamps that knows the first
  instant of 2020 in UTC (1577836800 seconds after the epoch) and rejects everything else.
\<close>

definition stamped_node :: element where
  "stamped_node = Element ''node'' [''id'' \<mapsto> ''5'', ''timestamp'' \<mapsto> ''2020-01-01T00:00:00Z'']
     [Element ''tag'' [''k'' \<mapsto> ''amenity'', ''v'' \<mapsto> ''cafe''] []]"




definition keyed_node :: element where
  "keyed_node =
     Element ''node'' [''id'' \<mapsto> ''9'', ''timestamp'' \<mapsto> ''2020-01-01T00:00:00Z'', ''user'' \<mapsto> ''bob'']
     [Element ''tag'' [''k'' \<mapsto> ''shop''] [],
      Element ''tag'' [''k'' \<mapsto> ''shop'', ''v'' \<mapsto> ''yes''] [],
      Element ''tag'' [''k'' \<mapsto> '''', ''v'' \<mapsto> ''x''] []]"

definition iso_parser :: "string \<Rightarrow> datetime option" where
  "iso_parser ts =
     (if ts = ''2020-01-01T00:00:00+00:00'' then Some (Aware 1577836800000000) else None)"

section \<open>Facts about dictionaries\<close>

lemma map_of_dict_set: "map_of (dict_set d k v) k' = (if k' = k then Some v else map_of d k')"
  by (induction d) auto

lemma keys_dict_set:
  "map fst (dict_set d k v) = (if k \<in> fst ` set d then map fst d else map fst d @ [k])"
  by (induction d) force+

lemma distinct_dict_set: "distinct (map fst d) \<Longrightarrow> distinct (map fst (dict_set d k v))"
  by (simp add: keys_dict_set)

lemma sum_counter_inc: "sum_list (map snd (counter_inc c k)) = Suc (sum_list (map snd c))"
  unfolding counter_inc_def counter_get_def
  by (induction c) auto

lemma counter_get_inc: "counter_get (counter_inc c k) k' = counter_get c k' + (if k' = k then 1 else 0)"
  by (simp add: counter_inc_def counter_get_def map_of_dict_set)

lemma default_get_dict_set: "default_get (dict_set d k x) k' = (if k' = k then x else default_get d k')"
  by (simp add: default_get_def map_of_dict_set)

section \<open>The aggregator: one object\<close>

lemma record_tags_locals:
  "elements_processed (record_tags t i n items s) = elements_processed s"
  "last_report (record_tags t i n items s) = last_report s"
  "ticks (record_tags t i n items s) = ticks s"
  "delivered (record_tags t i n items s) = delivered s"
  by (induction t i n items s rule: record_tags.induct) simp_all

lemma record_tags_tag_counts:
  "counter_get (tag_counts (record_tags t i n items s)) k =
     counter_get (tag_counts s) k + count_list (map fst items) k"
  by (induction t i n items s rule: record_tags.induct) (simp_all add: counter_get_inc)

lemma record_tags_values_map:
  "counter_get (default_get (values_map (record_tags t i n items s)) k) v =
     counter_get (default_get (values_map s) k) v + count_list items (k, v)"
  by (induction t i n items s rule: record_tags.induct)
     (simp_all add: counter_get_inc default_get_dict_set)

lemma record_tags_objects_map:
  "default_get (objects_map (record_tags t i n items s)) kv =
     default_get (objects_map s) kv @ replicate (count_list items kv) (t, i, entry_name n)"
  by (induction t i n items s rule: record_tags.induct)
     (auto simp: default_get_dict_set replicate_append_same)

lemma record_tags_objects_keys:
  "map_of (objects_map (record_tags t i n items s)) kv = None \<longleftrightarrow>
     map_of (objects_map s) kv = None \<and> kv \<notin> set items"
  by (induction t i n items s rule: record_tags.induct) (auto simp: map_of_dict_set)

lemma collect_tags_distinct:
  "distinct (map fst tags) \<Longrightarrow> distinct (map fst (collect_tags cs tags))"
  by (induction cs arbitrary: tags) (auto simp: distinct_dict_set split: option.splits)

lemma collect_tags_map_of:
  "map_of (collect_tags cs tags) k =
     (case map_of (rev (tag_pairs cs)) k of Some v \<Rightarrow> Some v | None \<Rightarrow> map_of tags k)"
proof (induction cs arbitrary: tags)
  case Nil
  show ?case by simp
next
  case (Cons c cs)
  show ?case
    by (simp add: Cons.IH map_of_dict_set map_add_def split: option.splits)
qed


lemma count_list_distinct: "distinct xs \<Longrightarrow> count_list xs x = (if x \<in> set xs then 1 else 0)"
  by (induction xs) auto

lemma distinct_keys_items: "distinct (map fst d) \<Longrightarrow> distinct d"
  by (simp add: distinct_map)

lemma count_keys_distinct:
  "distinct (map fst d) \<Longrightarrow> count_list (map fst d) k = (if k \<in> fst ` set d then 1 else 0)"
  by (simp add: count_list_distinct)

lemma tags_of_distinct: "distinct (map fst (tags_of elem))"
  by (simp add: tags_of_def collect_tags_distinct)

lemma record_tags_invariant:
  assumes "P s"
    and "\<And>s k v. P s \<Longrightarrow>
           P (s\<lparr>tag_counts := counter_inc (tag_counts s) k,
                values_map := dict_set (values_map s) k (counter_inc (default_get (values_map s) k) v),
                objects_map := dict_set (objects_map s) (k, v)
                   (default_get (objects_map s) (k, v) @ [(t, i, entry_name n)])\<rparr>)"
  shows "P (record_tags t i n items s)"
  using assms(1)
proof (induction items arbitrary: s)
  case Nil
  then show ?case by simp
next
  case (Cons kv items)
  obtain k v where kv: "kv = (k, v)" by (cases kv)
  show ?case
    unfolding kv record_tags.simps
    by (rule Cons.IH, rule assms(2), rule Cons.prems)
qed

lemma record_tags_sums_agree:
  "sums_agree s \<Longrightarrow> sums_agree (record_tags t i n items s)"
proof (erule record_tags_invariant)
  fix s :: "'a parser" and k v
  assume a: "sums_agree s"
  have "counter_get (tag_counts s) k = sum_list (map snd (default_get (values_map s) k))"
    using a [unfolded sums_agree_def, rule_format, of k]
    by (simp add: counter_get_def default_get_def split: option.splits)
  with a show "sums_agree (s\<lparr>tag_counts := counter_inc (tag_counts s) k,
                values_map := dict_set (values_map s) k (counter_inc (default_get (values_map s) k) v),
                objects_map := dict_set (objects_map s) (k, v)
                   (default_get (objects_map s) (k, v) @ [(t, i, entry_name n)])\<rparr>)"
    by (simp add: sums_agree_def map_of_dict_set sum_counter_inc counter_inc_def [of "tag_counts s"])
qed

lemma record_tags_keys_distinct:
  "keys_distinct s \<Longrightarrow> keys_distinct (record_tags t i n items s)"
proof (erule record_tags_invariant)
  fix s :: "'a parser" and k v
  assume a: "keys_distinct s"
  have "distinct (map fst (default_get (values_map s) k))"
    using a by (auto simp: keys_distinct_def default_get_def split: option.splits)
  then have "distinct (map fst (counter_inc (default_get (values_map s) k) v))"
    by (simp add: counter_inc_def distinct_dict_set)
  with a show "keys_distinct (s\<lparr>tag_counts := counter_inc (tag_counts s) k,
                values_map := dict_set (values_map s) k (counter_inc (default_get (values_map s) k) v),
                objects_map := dict_set (objects_map s) (k, v)
                   (default_get (objects_map s) (k, v) @ [(t, i, entry_name n)])\<rparr>)"
    by (simp add: keys_distinct_def distinct_dict_set counter_inc_def [of "tag_counts s"] map_of_dict_set)
qed

lemma report_fields:
  "tag_counts (report time due cb s) = tag_counts s"
  "values_map (report time due cb s) = values_map s"
  "objects_map (report time due cb s) = objects_map s"
  "elements_processed (report time due cb s) = elements_processed s"
  by (simp_all add: report_def)


lemma body_sums_agree: "sums_agree s \<Longrightarrow> sums_agree (body time due cb ev elem s)"
proof -
  assume a: "sums_agree s"
  then have "sums_agree (s\<lparr>elements_processed := elements_processed s + 1\<rparr>)"
    by (simp add: sums_agree_def)
  then have "sums_agree (record_tags t i n items (s\<lparr>elements_processed := elements_processed s + 1\<rparr>))"
    for t i n items
    by (rule record_tags_sums_agree)
  with a show ?thesis
    by (simp add: body_def Let_def sums_agree_def report_fields)
qed

lemma body_keys_distinct: "keys_distinct s \<Longrightarrow> keys_distinct (body time due cb ev elem s)"
proof -
  assume a: "keys_distinct s"
  then have "keys_distinct (s\<lparr>elements_processed := elements_processed s + 1\<rparr>)"
    by (simp add: keys_distinct_def)
  then have "keys_distinct (record_tags t i n items (s\<lparr>elements_processed := elements_processed s + 1\<rparr>))"
    for t i n items
    by (rule record_tags_keys_distinct)
  with a show ?thesis
    by (simp add: body_def Let_def keys_distinct_def report_fields)
qed

section \<open>The aggregator: a run\<close>

lemma for_loop_invariant:
  assumes "for_loop time due cb ctx s = Inr s'"
    and "P s"
    and "\<And>ev elem s. P s \<Longrightarrow> P (body time due cb ev elem s)"
  shows "P s'"
  using assms(1,2)
proof (induction ctx arbitrary: s)
  case Stop
  then show ?case by simp
next
  case Raise
  then show ?case by simp
next
  case (Yield ev elem ctx)
  from Yield.prems(1) have "for_loop time due cb ctx (body time due cb ev elem s) = Inr s'"
    by simp
  then show ?case
    by (rule Yield.IH) (rule assms(3), rule Yield.prems(2))
qed

lemma parse_cases:
  assumes "parse time due cb ctx = Inr s"
  obtains ev root rest s0 where
    "ctx = Yield ev root rest"
    "for_loop time due cb rest
       \<lparr>tag_counts = [], values_map = [], objects_map = [],
        elements_processed = 0, last_report = time 0, ticks = 1, delivered = []\<rparr> = Inr s0"
    "s = (if cb then s0\<lparr>delivered := delivered s0 @ [elements_processed s0]\<rparr> else s0)"
  using assms
  by (auto simp: parse_def split: iterator.splits sum.splits)

lemma parse_sums_agree: "parse time due cb ctx = Inr s \<Longrightarrow> sums_agree s"
proof (erule parse_cases)
  fix ev root rest s0
  assume loop: "for_loop time due cb rest
       \<lparr>tag_counts = [], values_map = [], objects_map = [],
        elements_processed = 0, last_report = time 0, ticks = 1, delivered = []\<rparr> = Inr s0"
    and s: "s = (if cb then s0\<lparr>delivered := delivered s0 @ [elements_processed s0]\<rparr> else s0)"
  have "sums_agree s0"
  proof (rule for_loop_invariant [OF loop])
    show "sums_agree \<lparr>tag_counts = [], values_map = [], objects_map = [],
        elements_processed = 0, last_report = time 0, ticks = 1, delivered = []\<rparr>"
      by (simp add: sums_agree_def)
  qed (rule body_sums_agree)
  then show "sums_agree s"
    by (simp add: s sums_agree_def)
qed

lemma parse_keys_distinct: "parse time due cb ctx = Inr s \<Longrightarrow> keys_distinct s"
proof (erule parse_cases)
  fix ev root rest s0
  assume loop: "for_loop time due cb rest
       \<lparr>tag_counts = [], values_map = [], objects_map = [],
        elements_processed = 0, last_report = time 0, ticks = 1, delivered = []\<rparr> = Inr s0"
    and s: "s = (if cb then s0\<lparr>delivered := delivered s0 @ [elements_processed s0]\<rparr> else s0)"
  have "keys_distinct s0"
  proof (rule for_loop_invariant [OF loop])
    show "keys_distinct \<lparr>tag_counts = [], values_map = [], objects_map = [],
        elements_processed = 0, last_report = time 0, ticks = 1, delivered = []\<rparr>"
      by (simp add: keys_distinct_def)
  qed (rule body_keys_distinct)
  then show "keys_distinct s"
    by (simp add: s keys_distinct_def)
qed

lemma cafe_run:
  "parse (\<lambda>n. n) (\<lambda>now last. 2 < now - last) True cafe_events = Inr cafe_result"
  by (simp add: parse_def cafe_events_def cafe_node_def cafe_way_def osm_root_def body_def
      is_object_def report_def obj_id_of_def entry_name_def counter_inc_def counter_get_def
      default_get_def cafe_result_def)

lemma body_unfold:
  "body time due cb ev elem s =
     (if ev = End \<and> is_object elem then
        report time due cb
          (record_tags (tag elem) (obj_id_of elem) (map_of (tags_of elem) ''name'') (tags_of elem)
             (s\<lparr>elements_processed := elements_processed s + 1\<rparr>))
      else s)"
  by (simp add: body_def Let_def tags_of_def)

lemma body_objects_map:
  "default_get (objects_map (body time due cb ev elem s)) kv =
     default_get (objects_map s) kv @
       (if ev = End \<and> is_object elem \<and> kv \<in> set (tags_of elem) then [entry_of elem] else [])"
  by (simp add: body_unfold report_fields record_tags_objects_map entry_of_def
      count_list_distinct distinct_keys_items tags_of_distinct)

lemma body_objects_none:
  "map_of (objects_map (body time due cb ev elem s)) kv = None \<longleftrightarrow>
     map_of (objects_map s) kv = None \<and> \<not> (ev = End \<and> is_object elem \<and> kv \<in> set (tags_of elem))"
  by (auto simp: body_unfold report_fields record_tags_objects_keys)

lemma body_tag_counts:
  "counter_get (tag_counts (body time due cb ev elem s)) k =
     counter_get (tag_counts s) k +
       (if ev = End \<and> is_object elem \<and> k \<in> fst ` set (tags_of elem) then 1 else 0)"
  by (simp add: body_unfold report_fields record_tags_tag_counts count_keys_distinct tags_of_distinct)

lemma body_values_map:
  "counter_get (default_get (values_map (body time due cb ev elem s)) k) v =
     counter_get (default_get (values_map s) k) v +
       (if ev = End \<and> is_object elem \<and> (k, v) \<in> set (tags_of elem) then 1 else 0)"
  by (simp add: body_unfold report_fields record_tags_values_map
      count_list_distinct distinct_keys_items tags_of_distinct)

lemma body_elements_processed:
  "elements_processed (body time due cb ev elem s) =
     elements_processed s + (if ev = End \<and> is_object elem then 1 else 0)"
  by (simp add: body_unfold report_fields record_tags_locals)

lemma body_delivered:
  "delivered (body time due cb ev elem s) = delivered s \<or>
   delivered (body time due cb ev elem s) =
     delivered s @ [elements_processed (body time due cb ev elem s)]"
  by (simp add: body_unfold report_def record_tags_locals)

lemma body_no_callback: "delivered (body time due False ev elem s) = delivered s"
  by (simp add: body_unfold report_def record_tags_locals)

lemma for_loop_objects_map:
  "for_loop time due cb ctx s = Inr s' \<Longrightarrow>
   default_get (objects_map s') kv =
     default_get (objects_map s) kv @
       map entry_of (filter (\<lambda>el. kv \<in> set (tags_of el)) (handled ctx))"
  by (induction ctx arbitrary: s) (simp_all add: body_objects_map)

lemma for_loop_objects_none:
  "for_loop time due cb ctx s = Inr s' \<Longrightarrow>
   map_of (objects_map s') kv = None \<longleftrightarrow>
     map_of (objects_map s) kv = None \<and> filter (\<lambda>el. kv \<in> set (tags_of el)) (handled ctx) = []"
  by (induction ctx arbitrary: s) (auto simp: body_objects_none)

lemma for_loop_elements_processed:
  "for_loop time due cb ctx s = Inr s' \<Longrightarrow>
   elements_processed s' = elements_processed s + length (handled ctx)"
  by (induction ctx arbitrary: s) (simp_all add: body_elements_processed)

lemma body_reports_ok:
  assumes "reports_ok s"
  shows "reports_ok (body time due cb ev elem s)"
proof -
  let ?s' = "body time due cb ev elem s"
  have le: "elements_processed s \<le> elements_processed ?s'"
    by (simp add: body_elements_processed)
  from assms have old: "sorted (delivered s)" "\<forall>n \<in> set (delivered s). n \<le> elements_processed ?s'"
    using le by (auto simp: reports_ok_def)
  from body_delivered [of time due cb ev elem s] show ?thesis
  proof
    assume "delivered ?s' = delivered s"
    with old show ?thesis by (simp add: reports_ok_def)
  next
    assume "delivered ?s' = delivered s @ [elements_processed ?s']"
    with old show ?thesis by (simp add: reports_ok_def sorted_append)
  qed
qed

lemma for_loop_reports_ok:
  "for_loop time due cb ctx s = Inr s' \<Longrightarrow> reports_ok s \<Longrightarrow> reports_ok s'"
  by (erule for_loop_invariant) (assumption, rule body_reports_ok)

lemma for_loop_no_callback:
  "for_loop time due False ctx s = Inr s' \<Longrightarrow> delivered s' = delivered s"
  by (induction ctx arbitrary: s) (simp_all add: body_no_callback)

lemma parse_objects_map:
  assumes "parse time due cb ctx = Inr s"
  shows "default_get (objects_map s) kv =
           map entry_of (filter (\<lambda>el. kv \<in> set (tags_of el)) (processed ctx))"
  using assms
proof (rule parse_cases)
  fix ev root rest s0
  assume ctx: "ctx = Yield ev root rest"
    and loop: "for_loop time due cb rest
       \<lparr>tag_counts = [], values_map = [], objects_map = [],
        elements_processed = 0, last_report = time 0, ticks = 1, delivered = []\<rparr> = Inr s0"
    and s: "s = (if cb then s0\<lparr>delivered := delivered s0 @ [elements_processed s0]\<rparr> else s0)"
  from for_loop_objects_map [OF loop, of kv] show ?thesis
    by (simp add: processed_def ctx s default_get_def)
qed

lemma parse_objects_none:
  assumes "parse time due cb ctx = Inr s"
  shows "map_of (objects_map s) kv = None \<longleftrightarrow>
           filter (\<lambda>el. kv \<in> set (tags_of el)) (processed ctx) = []"
  using assms
proof (rule parse_cases)
  fix ev root rest s0
  assume ctx: "ctx = Yield ev root rest"
    and loop: "for_loop time due cb rest
       \<lparr>tag_counts = [], values_map = [], objects_map = [],
        elements_processed = 0, last_report = time 0, ticks = 1, delivered = []\<rparr> = Inr s0"
    and s: "s = (if cb then s0\<lparr>delivered := delivered s0 @ [elements_processed s0]\<rparr> else s0)"
  from for_loop_objects_none [OF loop, of kv] show ?thesis
    by (simp add: processed_def ctx s)
qed

lemma parse_lookup:
  assumes "parse time due cb ctx = Inr s"
  shows "map_of (objects_map s) kv =
           (let hits = filter (\<lambda>el. kv \<in> set (tags_of el)) (processed ctx)
            in if hits = [] then None else Some (map entry_of hits))"
  using parse_objects_map [OF assms, of kv] parse_objects_none [OF assms, of kv]
  by (auto simp: default_get_def Let_def split: option.splits)

lemma parse_progress:
  assumes "parse time due cb ctx = Inr s"
  shows "elements_processed s = length (processed ctx) \<and> sorted (delivered s) \<and>
         (if cb then \<exists>earlier. delivered s = earlier @ [length (processed ctx)]
          else delivered s = [])"
  using assms
proof (rule parse_cases)
  fix ev root rest s0
  let ?init = "\<lparr>tag_counts = [], values_map = [], objects_map = [],
        elements_processed = 0, last_report = time 0, ticks = 1, delivered = []\<rparr>"
  assume ctx: "ctx = Yield ev root rest"
    and loop: "for_loop time due cb rest ?init = Inr s0"
    and s: "s = (if cb then s0\<lparr>delivered := delivered s0 @ [elements_processed s0]\<rparr> else s0)"
  have n: "elements_processed s0 = length (processed ctx)"
    using for_loop_elements_processed [OF loop] by (simp add: processed_def ctx)
  have "reports_ok ?init" by (simp add: reports_ok_def)
  with loop have ok: "reports_ok s0" by (rule for_loop_reports_ok)
  show ?thesis
  proof (cases cb)
    case True
    with ok n s show ?thesis by (simp add: reports_ok_def sorted_append)
  next
    case False
    with loop have "delivered s0 = []" using for_loop_no_callback [of time due rest ?init s0] by simp
    with False n s show ?thesis by simp
  qed
qed

lemma cafe_processed: "processed cafe_events = [cafe_node, cafe_way]"
  by (simp add: processed_def cafe_events_def is_object_def cafe_node_def cafe_way_def osm_root_def)

lemma cafe_tags:
  "tags_of cafe_node = [(''name'', ''Cafe''), (''amenity'', ''cafe'')]"
  "tags_of cafe_way = [(''amenity'', ''cafe'')]"
  by (simp_all add: tags_of_def cafe_node_def cafe_way_def)

lemma cafe_entries:
  "entry_of cafe_node = (''node'', ''1'', ''Cafe'')"
  "entry_of cafe_way = (''way'', ''2'', ''unnamed key-value'')"
  by (simp_all add: entry_of_def cafe_tags entry_name_def obj_id_of_def, simp_all add: cafe_node_def cafe_way_def)

section \<open>The aggregator: properties\<close>

text \<open>
  C1. In the result of a finished run, every key of KeyFrequency (\<open>tag_counts\<close>) has a
  value distribution in ValueFrequency (\<open>values_map\<close>), each value listed once, and the
  counts of that distribution add up to the count of the key.
\<close>

theorem value_counts_sum_to_key_count:
  assumes "parse time due cb ctx = Inr s"
    and "k \<in> fst ` set (tag_counts s)"
  shows "\<exists>c. map_of (values_map s) k = Some c \<and> distinct (map fst c) \<and>
             map_of (tag_counts s) k = Some (sum_list (map snd c))"
proof -
  from assms(2) obtain n where n: "map_of (tag_counts s) k = Some n"
    by (metis option.exhaust map_of_eq_None_iff)
  from parse_sums_agree [OF assms(1)]
  have "map_of (tag_counts s) k = map_option (\<lambda>c. sum_list (map snd c)) (map_of (values_map s) k)"
    by (simp add: sums_agree_def)
  with n obtain c where c: "map_of (values_map s) k = Some c" "n = sum_list (map snd c)"
    by (cases "map_of (values_map s) k") auto
  moreover from parse_keys_distinct [OF assms(1)] c(1) have "distinct (map fst c)"
    by (simp add: keys_distinct_def)
  ultimately show ?thesis using n by simp
qed

theorem value_counts_sum_to_key_count_witness:
  "parse (\<lambda>n. n) (\<lambda>now last. 2 < now - last) True cafe_events = Inr cafe_result \<and>
   ''amenity'' \<in> fst ` set (tag_counts cafe_result) \<and>
   (\<exists>c. map_of (values_map cafe_result) ''amenity'' = Some c \<and> distinct (map fst c) \<and>
        map_of (tag_counts cafe_result) ''amenity'' = Some (sum_list (map snd c)))"
proof -
  have key: "''amenity'' \<in> fst ` set (tag_counts cafe_result)"
    by (simp add: cafe_result_def)
  from value_counts_sum_to_key_count [OF cafe_run key] cafe_run key show ?thesis
    by blast
qed

text \<open>
  C2. After a finished run, the bucket of a pair \<open>(key, value)\<close> in ObjectIndex
  (\<open>objects_map\<close>) holds one reference for every processed object whose tag mapping has
  that pair, in traversal order, and nothing else; a pair that no object has carries no
  bucket. The keys of an object's mapping are distinct, so an object with N keys is filed
  under exactly N pairs.
\<close>

theorem object_index_holds_each_carrier_once:
  assumes "parse time due cb ctx = Inr s"
  shows "map_of (objects_map s) kv =
           (let hits = filter (\<lambda>el. kv \<in> set (tags_of el)) (processed ctx)
            in if hits = [] then None else Some (map entry_of hits)) \<and>
         (\<forall>el \<in> set (processed ctx).
            distinct (map fst (tags_of el)) \<and>
            card (set (tags_of el)) = length (map fst (tags_of el)))"
proof -
  have "card (set (tags_of el)) = length (map fst (tags_of el))" for el
    using distinct_card [OF distinct_keys_items [OF tags_of_distinct [of el]]] by simp
  then show ?thesis
    using parse_lookup [OF assms, of kv] by (simp add: tags_of_distinct)
qed

theorem object_index_holds_each_carrier_once_witness:
  "parse (\<lambda>n. n) (\<lambda>now last. 2 < now - last) True cafe_events = Inr cafe_result \<and>
   processed cafe_events = [cafe_node, cafe_way] \<and>
   map_of (objects_map cafe_result) (''amenity'', ''cafe'') =
     Some [(''node'', ''1'', ''Cafe''), (''way'', ''2'', ''unnamed key-value'')] \<and>
   map_of (objects_map cafe_result) (''name'', ''cafe'') = None \<and>
   card (set (tags_of cafe_node)) = 2"
  using object_index_holds_each_carrier_once [OF cafe_run, of "(''amenity'', ''cafe'')"]
    object_index_holds_each_carrier_once [OF cafe_run, of "(''name'', ''cafe'')"]
    cafe_run
  by (simp add: cafe_processed cafe_tags cafe_entries)

text \<open>
  C3. Every reference recorded in ObjectIndex comes from a processed object that has the
  pair, and every processed object is recorded under each of its pairs. The displayName
  of the reference is the sentinel \<open>unnamed key-value\<close>, taken as the default, exactly when
  the object's mapping has no \<open>name\<close> key, and is the value of the \<open>name\<close> tag otherwise,
  the empty string included.
\<close>

theorem display_name_is_name_tag_or_sentinel:
  assumes "parse time due cb ctx = Inr s"
  shows "(\<forall>el \<in> set (processed ctx). \<forall>kv \<in> set (tags_of el).
            (tag el, obj_id_of el,
             case map_of (tags_of el) ''name'' of None \<Rightarrow> ''unnamed key-value'' | Some v \<Rightarrow> v)
              \<in> set (default_get (objects_map s) kv)) \<and>
         (\<forall>entry \<in> set (default_get (objects_map s) kv).
            \<exists>el \<in> set (processed ctx). kv \<in> set (tags_of el) \<and>
              entry = (tag el, obj_id_of el,
                 case map_of (tags_of el) ''name'' of None \<Rightarrow> ''unnamed key-value'' | Some v \<Rightarrow> v))"
proof -
  have e: "entry_of el = (tag el, obj_id_of el,
             case map_of (tags_of el) ''name'' of None \<Rightarrow> ''unnamed key-value'' | Some v \<Rightarrow> v)" for el
    by (simp add: entry_of_def entry_name_def split: option.splits)
  have "default_get (objects_map s) kv' =
          map entry_of (filter (\<lambda>el. kv' \<in> set (tags_of el)) (processed ctx))" for kv'
    by (rule parse_objects_map [OF assms])
  then show ?thesis
    by (auto simp: e [symmetric])
qed

theorem display_name_is_name_tag_or_sentinel_witness:
  "parse (\<lambda>n. n) (\<lambda>now last. 2 < now - last) True cafe_events = Inr cafe_result \<and>
   cafe_way \<in> set (processed cafe_events) \<and> (''amenity'', ''cafe'') \<in> set (tags_of cafe_way) \<and>
   map_of (tags_of cafe_way) ''name'' = None \<and>
   (''way'', ''2'', ''unnamed key-value'')
     \<in> set (default_get (objects_map cafe_result) (''amenity'', ''cafe''))"
proof -
  have way: "cafe_way \<in> set (processed cafe_events)"
    by (simp add: cafe_processed)
  have pair: "(''amenity'', ''cafe'') \<in> set (tags_of cafe_way)"
    by (simp add: cafe_tags)
  have no_name: "map_of (tags_of cafe_way) ''name'' = None"
    by (simp add: cafe_tags)
  have "(tag cafe_way, obj_id_of cafe_way,
         case map_of (tags_of cafe_way) ''name'' of None \<Rightarrow> ''unnamed key-value'' | Some v \<Rightarrow> v)
          \<in> set (default_get (objects_map cafe_result) (''amenity'', ''cafe''))"
    using display_name_is_name_tag_or_sentinel [OF cafe_run, of "(''amenity'', ''cafe'')"] way pair
    by blast
  moreover have "tag cafe_way = ''way''" "obj_id_of cafe_way = ''2''"
    by (simp_all add: cafe_way_def obj_id_of_def)
  ultimately show ?thesis
    using cafe_run way pair no_name by simp
qed

text \<open>
  C4. In a finished run with a progress observer, the counts it receives never decrease,
  and the last one, sent after the loop, is the number of \<open>node\<close>, \<open>way\<close> and \<open>relation\<close>
  elements whose end event was handled, with or without tags.
\<close>

theorem progress_counts_sorted_and_final_is_total:
  assumes "parse time due True ctx = Inr s"
  shows "sorted (delivered s) \<and>
         (\<exists>earlier. delivered s = earlier @ [length (processed ctx)]) \<and>
         elements_processed s = length (processed ctx)"
  using parse_progress [OF assms] by simp

theorem progress_counts_sorted_and_final_is_total_witness:
  "parse (\<lambda>n. n) (\<lambda>now last. 2 < now - last) True cafe_events = Inr cafe_result \<and>
   sorted (delivered cafe_result) \<and> delivered cafe_result = [] @ [2] \<and>
   length (processed cafe_events) = 2 \<and> elements_processed cafe_result = 2"
  using progress_counts_sorted_and_final_is_total [OF cafe_run] cafe_run
  by (simp add: cafe_processed cafe_result_def)

lemma last_pair_lookup:
  assumes "ps = earlier @ (k, v) # later" and "k \<notin> fst ` set later"
  shows "map_of (rev ps) k = Some v"
proof -
  have "map_of (rev later) k = None"
    using assms(2) by (simp add: map_of_eq_None_iff)
  then show ?thesis
    by (simp add: assms(1) map_add_def)
qed

lemma tags_of_last_pair:
  assumes "tag_pairs (children elem) = earlier @ (k, v) # later" and "k \<notin> fst ` set later"
  shows "map_of (tags_of elem) k = Some v"
  using last_pair_lookup [OF assms] by (simp add: tags_of_def collect_tags_map_of)

lemma tags_of_member: "(k, v) \<in> set (tags_of elem) \<longleftrightarrow> map_of (tags_of elem) k = Some v"
  using tags_of_distinct [of elem] by simp

lemma key_once:
  "distinct (map fst d) \<Longrightarrow> map_of d k = Some v \<Longrightarrow> filter (\<lambda>kv. fst kv = k) d = [(k, v)]"
proof (induction d)
  case Nil
  then show ?case by simp
next
  case (Cons a d)
  show ?case
  proof (cases "fst a = k")
    case True
    with Cons.prems have "a = (k, v)" by (cases a) simp
    moreover from True Cons.prems(1) have "k \<notin> fst ` set d"
      by auto
    then have "filter (\<lambda>kv. fst kv = k) d = []"
      by (auto simp: filter_empty_conv)
    ultimately show ?thesis by simp
  next
    case False
    with Cons show ?thesis by (cases a) simp
  qed
qed

text \<open>
  C5. When a key occurs on several tag children of one object, the value of its last
  occurrence is the one the object's mapping keeps: the mapping has the key once, and
  handling the object raises KeyFrequency of the key by one, ValueFrequency by one for
  the last value only, and files the object under the pair with the last value only.
\<close>

theorem repeated_key_last_value_wins:
  assumes "is_object elem"
    and "tag_pairs (children elem) = earlier @ (k, v) # later"
    and "k \<notin> fst ` set later"
  shows "filter (\<lambda>kv. fst kv = k) (tags_of elem) = [(k, v)] \<and>
         counter_get (tag_counts (body time due cb End elem s)) k =
           counter_get (tag_counts s) k + 1 \<and>
         counter_get (default_get (values_map (body time due cb End elem s)) k) v' =
           counter_get (default_get (values_map s) k) v' + (if v' = v then 1 else 0) \<and>
         default_get (objects_map (body time due cb End elem s)) (k, v') =
           default_get (objects_map s) (k, v') @ (if v' = v then [entry_of elem] else [])"
proof -
  have look: "map_of (tags_of elem) k = Some v"
    by (rule tags_of_last_pair [OF assms(2,3)])
  then have mem: "(k, v') \<in> set (tags_of elem) \<longleftrightarrow> v' = v" for v'
    by (auto simp: tags_of_member)
  from mem [of v] have key: "k \<in> fst ` set (tags_of elem)"
    by force
  have "filter (\<lambda>kv. fst kv = k) (tags_of elem) = [(k, v)]"
    by (rule key_once [OF tags_of_distinct look])
  then show ?thesis
    using assms(1) key by (simp add: body_tag_counts body_values_map body_objects_map mem)
qed

lemma renamed_pairs:
  "tag_pairs (children renamed_node) = [] @ (''name'', ''Old'') # [(''name'', ''New'')]"
  "tag_pairs (children renamed_node) = [(''name'', ''Old'')] @ (''name'', ''New'') # []"
  by (simp_all add: renamed_node_def)

theorem repeated_key_last_value_wins_witness:
  "is_object renamed_node \<and>
   tag_pairs (children renamed_node) = [(''name'', ''Old'')] @ (''name'', ''New'') # [] \<and>
   ''name'' \<notin> fst ` set [] \<and>
   filter (\<lambda>kv. fst kv = ''name'') (tags_of renamed_node) = [(''name'', ''New'')] \<and>
   counter_get (tag_counts (body (\<lambda>n. n) (\<lambda>now last. 2 < now - last) True End renamed_node blank)) ''name'' = 1 \<and>
   counter_get (default_get (values_map (body (\<lambda>n. n) (\<lambda>now last. 2 < now - last) True End renamed_node blank)) ''name'') ''Old'' = 0 \<and>
   default_get (objects_map (body (\<lambda>n. n) (\<lambda>now last. 2 < now - last) True End renamed_node blank)) (''name'', ''Old'') = []"
proof -
  have obj: "is_object renamed_node"
    by (simp add: is_object_def renamed_node_def)
  have none: "''name'' \<notin> fst ` set ([] :: (string \<times> string) list)"
    by simp
  from repeated_key_last_value_wins [OF obj renamed_pairs(2) none,
      of "\<lambda>n. n" "\<lambda>now last. 2 < now - last" True blank "''Old''"]
  show ?thesis
    using obj renamed_pairs(2)
    by (simp add: blank_def counter_get_def default_get_def)
qed

lemma collect_tags_skip:
  "collect_tags (filter (\<lambda>c. \<not> (tag c = ''tag'' \<and> (attrib c ''k'' = None \<or> attrib c ''v'' = None))) cs) tags =
   collect_tags cs tags"
  by (induction cs arbitrary: tags) (auto split: option.splits)

lemma collect_tags_none:
  "\<forall>c \<in> set cs. tag c = ''tag'' \<longrightarrow> attrib c ''k'' = None \<or> attrib c ''v'' = None \<Longrightarrow>
   collect_tags cs tags = tags"
  by (induction cs arbitrary: tags) (auto split: option.splits)

text \<open>
  C9. A tag child without a \<open>k\<close> or without a \<open>v\<close> attribute is as good as absent: the
  loop body does the same with and without such children. An object all of whose tag
  children are of that kind has an empty mapping and leaves KeyFrequency, ValueFrequency
  and ObjectIndex as they were.
\<close>

theorem incomplete_tag_children_ignored:
  "tags_of (Element t a cs) =
     tags_of (Element t a
       (filter (\<lambda>c. \<not> (tag c = ''tag'' \<and> (attrib c ''k'' = None \<or> attrib c ''v'' = None))) cs)) \<and>
   body time due cb ev (Element t a cs) s =
     body time due cb ev
       (Element t a
          (filter (\<lambda>c. \<not> (tag c = ''tag'' \<and> (attrib c ''k'' = None \<or> attrib c ''v'' = None))) cs)) s \<and>
   ((\<forall>c \<in> set cs. tag c = ''tag'' \<longrightarrow> attrib c ''k'' = None \<or> attrib c ''v'' = None) \<longrightarrow>
      tags_of (Element t a cs) = [] \<and>
      tag_counts (body time due cb ev (Element t a cs) s) = tag_counts s \<and>
      values_map (body time due cb ev (Element t a cs) s) = values_map s \<and>
      objects_map (body time due cb ev (Element t a cs) s) = objects_map s)"
proof -
  have "tags_of (Element t a cs) =
     tags_of (Element t a
       (filter (\<lambda>c. \<not> (tag c = ''tag'' \<and> (attrib c ''k'' = None \<or> attrib c ''v'' = None))) cs))"
    unfolding tags_of_def element.sel collect_tags_skip
    by (rule refl)
  moreover have "body time due cb ev (Element t a cs) s =
     body time due cb ev
       (Element t a
          (filter (\<lambda>c. \<not> (tag c = ''tag'' \<and> (attrib c ''k'' = None \<or> attrib c ''v'' = None))) cs)) s"
    unfolding body_def is_object_def obj_id_of_def element.sel collect_tags_skip
    by (rule refl)
  moreover have "tags_of (Element t a cs) = [] \<and>
      tag_counts (body time due cb ev (Element t a cs) s) = tag_counts s \<and>
      values_map (body time due cb ev (Element t a cs) s) = values_map s \<and>
      objects_map (body time due cb ev (Element t a cs) s) = objects_map s"
    if "\<forall>c \<in> set cs. tag c = ''tag'' \<longrightarrow> attrib c ''k'' = None \<or> attrib c ''v'' = None"
    using collect_tags_none [OF that, of "[]"]
    by (simp add: body_unfold tags_of_def report_fields)
  ultimately show ?thesis by blast
qed

theorem incomplete_tag_children_ignored_witness:
  "length (children halfway_node) = 2 \<and>
   tags_of halfway_node = [] \<and>
   body (\<lambda>n. n) (\<lambda>now last. 2 < now - last) True End halfway_node blank =
     body (\<lambda>n. n) (\<lambda>now last. 2 < now - last) True End (Element ''node'' [''id'' \<mapsto> ''4''] []) blank \<and>
   tag_counts (body (\<lambda>n. n) (\<lambda>now last. 2 < now - last) True End halfway_node blank) = [] \<and>
   values_map (body (\<lambda>n. n) (\<lambda>now last. 2 < now - last) True End halfway_node blank) = [] \<and>
   objects_map (body (\<lambda>n. n) (\<lambda>now last. 2 < now - last) True End halfway_node blank) = []"
proof -
  have all: "\<forall>c \<in> set (children halfway_node). tag c = ''tag'' \<longrightarrow> attrib c ''k'' = None \<or> attrib c ''v'' = None"
    by (simp add: halfway_node_def)
  have shape: "halfway_node = Element ''node'' [''id'' \<mapsto> ''4''] (children halfway_node)"
    by (simp add: halfway_node_def)
  have kept: "filter (\<lambda>c. \<not> (tag c = ''tag'' \<and> (attrib c ''k'' = None \<or> attrib c ''v'' = None)))
                (children halfway_node) = []"
    by (simp add: halfway_node_def)
  have fields: "tag_counts blank = []" "values_map blank = []" "objects_map blank = []"
    by (simp_all add: blank_def)
  note inst = incomplete_tag_children_ignored
    [of "''node''" "[''id'' \<mapsto> ''4'']" "children halfway_node"
        "\<lambda>n. n" "\<lambda>now last. 2 < now - last" True End blank, unfolded kept, folded shape]
  have two: "length (children halfway_node) = 2"
    by (simp add: halfway_node_def)
  from inst all two show ?thesis
    unfolding fields by blast
qed

section \<open>The citation line: property\<close>

text \<open>
  C8 (as amended). The citation line of an object tuple is the template filled with the
  capitalized kind, the id and the displayName, except that an empty displayName is
  replaced by the sentinel. The three kinds are capitalized to \<open>Node\<close>, \<open>Way\<close> and
  \<open>Relation\<close>.
\<close>

theorem format_object_template:
  "format_object (typ, oid, name) =
     ''* {{'' @ capitalize typ @ ''|'' @ oid @ ''|'' @
       (if name = [] then ''unnamed key-value'' else name) @ ''}}'' \<and>
   capitalize ''node'' = ''Node'' \<and> capitalize ''way'' = ''Way'' \<and>
   capitalize ''relation'' = ''Relation''"
  by (simp add: format_object_def upper_char_def lower_char_def)

theorem format_object_empty_name_counterexample:
  "format_object (''node'', ''1'', '''') = ''* {{Node|1|unnamed key-value}}'' \<and>
   format_object (''node'', ''1'', '''') \<noteq> ''* {{'' @ ''Node'' @ ''|'' @ ''1'' @ ''|'' @ '''' @ ''}}''"
  by (simp add: format_object_def upper_char_def lower_char_def)

section \<open>The analyzer: properties\<close>

lemma visit_other: "\<not> is_object el \<Longrightarrow> visit f el a = Inr a"
  by (simp add: visit_def)

lemma visit_without_metadata:
  "is_object el \<Longrightarrow> \<not> (truthy (attrib el ''timestamp'') \<and> truthy (attrib el ''user'')) \<Longrightarrow>
   visit f el a = Inr (a\<lparr>tags_counter := count_tags (children el) (tags_counter a)\<rparr>)"
  by (auto simp: visit_def collect_metadata_def Let_def)

lemma scan_without_metadata:
  assumes "\<forall>el \<in> set elems. is_object el \<longrightarrow>
             \<not> (truthy (attrib el ''timestamp'') \<and> truthy (attrib el ''user''))"
  shows "\<exists>a'. scan f elems a = Inr a' \<and> timestamps a' = timestamps a"
  using assms
proof (induction elems arbitrary: a)
  case Nil
  then show ?case by simp
next
  case (Cons el elems)
  from Cons.prems have rest: "\<forall>el \<in> set elems. is_object el \<longrightarrow>
             \<not> (truthy (attrib el ''timestamp'') \<and> truthy (attrib el ''user''))"
    by simp
  show ?case
  proof (cases "is_object el")
    case True
    with Cons.prems have "\<not> (truthy (attrib el ''timestamp'') \<and> truthy (attrib el ''user''))"
      by simp
    from visit_without_metadata [OF True this, of f a] Cons.IH [OF rest, of "a\<lparr>tags_counter := count_tags (children el) (tags_counter a)\<rparr>"]
    show ?thesis by simp
  next
    case False
    from visit_other [OF False, of f a] Cons.IH [OF rest, of a]
    show ?thesis by simp
  qed
qed

text \<open>
  C6. When no object of the document has both a timestamp and a user (present and not
  empty), the list of timestamps is empty after the loop and the analyzer ends with the
  \<open>ValueError\<close> of \<open>min\<close>; it returns no summary.
\<close>

theorem analyzer_fails_without_timestamps:
  assumes "\<forall>el \<in> set (children root). is_object el \<longrightarrow>
             \<not> (truthy (attrib el ''timestamp'') \<and> truthy (attrib el ''user''))"
  shows "analyze_osm_xml fromisoformat root = Inl ValueError"
proof -
  from scan_without_metadata [OF assms, of fromisoformat start]
  obtain a where "scan fromisoformat (children root) start = Inr a" "timestamps a = []"
    by (auto simp: start_def)
  then show ?thesis
    by (simp add: analyze_osm_xml_def start_def py_min_def)
qed

theorem analyzer_fails_without_timestamps_witness:
  "truthy (attrib stamped_node ''timestamp'') \<and> attrib stamped_node ''user'' = None \<and>
   analyze_osm_xml iso_parser (Element ''osm'' Map.empty [stamped_node]) = Inl ValueError"
proof -
  have no_user: "attrib stamped_node ''user'' = None" and ts: "truthy (attrib stamped_node ''timestamp'')"
    by (simp_all add: stamped_node_def truthy_def)
  then have "\<forall>el \<in> set (children (Element ''osm'' Map.empty [stamped_node])). is_object el \<longrightarrow>
             \<not> (truthy (attrib el ''timestamp'') \<and> truthy (attrib el ''user''))"
    by (simp add: truthy_def)
  from analyzer_fails_without_timestamps [OF this] no_user ts show ?thesis
    by blast
qed





lemma count_tags_counts:
  "counter_get (count_tags cs c) k =
     counter_get c k +
       (if k = [] then 0 else length (filter (\<lambda>t. tag t = ''tag'' \<and> attrib t ''k'' = Some k) cs))"
  by (induction cs arbitrary: c) (auto simp: counter_get_inc truthy_def split: option.splits)

lemma count_tags_distinct:
  "distinct (map fst c) \<Longrightarrow> distinct (map fst (count_tags cs c))"
  by (induction cs arbitrary: c) (auto simp: counter_inc_def distinct_dict_set)

lemma visit_tags_counter:
  assumes "visit f el a = Inr a'"
  shows "tags_counter a' =
           (if is_object el then count_tags (children el) (tags_counter a) else tags_counter a)"
  using assms
  by (auto simp: visit_def collect_metadata_def Let_def split: if_splits option.splits)

lemma scan_tags_counter:
  "scan f elems a = Inr a' \<Longrightarrow>
   counter_get (tags_counter a') k =
     counter_get (tags_counter a) k +
       (if k = [] then 0
        else length (filter (\<lambda>t. attrib t ''k'' = Some k) (tag_children elems)))"
proof (induction elems arbitrary: a)
  case Nil
  then show ?case by (simp add: tag_children_def)
next
  case (Cons el elems)
  from Cons.prems obtain a1 where a1: "visit f el a = Inr a1" "scan f elems a1 = Inr a'"
    by (auto split: sum.splits)
  have split: "tag_children (el # elems) =
      (if is_object el then filter (\<lambda>t. tag t = ''tag'') (children el) else []) @ tag_children elems"
    by (simp add: tag_children_def)
  from Cons.IH [OF a1(2)] visit_tags_counter [OF a1(1)] show ?case
    by (simp add: split count_tags_counts conj_commute)
qed

lemma scan_tags_distinct:
  "scan f elems a = Inr a' \<Longrightarrow> distinct (map fst (tags_counter a)) \<Longrightarrow>
   distinct (map fst (tags_counter a'))"
proof (induction elems arbitrary: a)
  case Nil
  then show ?case by simp
next
  case (Cons el elems)
  from Cons.prems(1) obtain a1 where a1: "visit f el a = Inr a1" "scan f elems a1 = Inr a'"
    by (auto split: sum.splits)
  from visit_tags_counter [OF a1(1)] Cons.prems(2) have "distinct (map fst (tags_counter a1))"
    by (simp add: count_tags_distinct)
  with a1(2) show ?case by (rule Cons.IH)
qed

lemma most_common_lookup:
  assumes "distinct (map fst c)"
  shows "counter_get (most_common c) k = counter_get c k"
proof -
  have "distinct (map fst (most_common c))"
    using assms by (simp add: most_common_def distinct_map)
  moreover have "set (most_common c) = set c"
    by (simp add: most_common_def)
  ultimately have "map_of (most_common c) = map_of c"
    using assms by (simp add: map_of_inject_set)
  then show ?thesis by (simp add: counter_get_def)
qed

text \<open>
  C10. After the loop of the analyzer the counter of a non-empty key is the number of
  tag children of the top-level objects whose \<open>k\<close> attribute is that key: each occurrence
  counts, with or without a \<open>v\<close> attribute, repeated on one object or not. The empty key
  is never counted. The ranked list of the summary holds the same counts.
\<close>

theorem tag_counter_counts_every_keyed_tag_child:
  "(scan f (children root) start = Inr a \<longrightarrow>
      counter_get (tags_counter a) k =
        (if k = [] then 0
         else length (filter (\<lambda>t. attrib t ''k'' = Some k) (tag_children (children root))))) \<and>
   (analyze_osm_xml f root = Inr r \<longrightarrow>
      counter_get (top_tags r) k =
        (if k = [] then 0
         else length (filter (\<lambda>t. attrib t ''k'' = Some k) (tag_children (children root)))))"
proof (intro conjI impI)
  assume "scan f (children root) start = Inr a"
  from scan_tags_counter [OF this, of k]
  show "counter_get (tags_counter a) k =
        (if k = [] then 0
         else length (filter (\<lambda>t. attrib t ''k'' = Some k) (tag_children (children root))))"
    by (simp add: start_def counter_get_def)
next
  assume r: "analyze_osm_xml f root = Inr r"
  then obtain b where b: "scan f (children root) start = Inr b" "top_tags r = most_common (tags_counter b)"
    by (auto simp: analyze_osm_xml_def start_def split: sum.splits)
  have "distinct (map fst (tags_counter b))"
    by (rule scan_tags_distinct [OF b(1)]) (simp add: start_def)
  then have "counter_get (top_tags r) k = counter_get (tags_counter b) k"
    by (simp add: b(2) most_common_lookup)
  with scan_tags_counter [OF b(1), of k]
  show "counter_get (top_tags r) k =
        (if k = [] then 0
         else length (filter (\<lambda>t. attrib t ''k'' = Some k) (tag_children (children root))))"
    by (simp add: start_def counter_get_def)
qed

lemma keyed_scan:
  "scan iso_parser (children (Element ''osm'' Map.empty [keyed_node])) start =
     Inr \<lparr>timestamps = [Aware 1577836800000000], contributors = [(''bob'', 1)], tags_counter = [(''shop'', 2)],
          contrib_timestamps = [(''bob'', [Aware 1577836800000000])]\<rparr>"
  by (simp add: visit_def collect_metadata_def truthy_def start_def keyed_node_def iso_parser_def
      is_object_def replace_Z_def counter_inc_def counter_get_def default_get_def)

lemma keyed_analysis:
  "analyze_osm_xml iso_parser (Element ''osm'' Map.empty [keyed_node]) =
     Inr \<lparr>oldest = Aware 1577836800000000, newest = Aware 1577836800000000, top_contribs = [(''bob'', 1)],
          top_tags = [(''shop'', 2)], lifespan_ranked = [(''bob'', 0)]\<rparr>"
  using keyed_scan
  by (simp add: analyze_osm_xml_def start_def py_min_def py_max_def most_common_def)

theorem tag_counter_counts_every_keyed_tag_child_witness:
  "scan iso_parser (children (Element ''osm'' Map.empty [keyed_node])) start =
     Inr \<lparr>timestamps = [Aware 1577836800000000], contributors = [(''bob'', 1)], tags_counter = [(''shop'', 2)],
          contrib_timestamps = [(''bob'', [Aware 1577836800000000])]\<rparr> \<and>
   analyze_osm_xml iso_parser (Element ''osm'' Map.empty [keyed_node]) =
     Inr \<lparr>oldest = Aware 1577836800000000, newest = Aware 1577836800000000, top_contribs = [(''bob'', 1)],
          top_tags = [(''shop'', 2)], lifespan_ranked = [(''bob'', 0)]\<rparr> \<and>
   length (filter (\<lambda>t. attrib t ''k'' = Some ''shop'')
     (tag_children (children (Element ''osm'' Map.empty [keyed_node])))) = 2"
  using tag_counter_counts_every_keyed_tag_child
    [of iso_parser "Element ''osm'' Map.empty [keyed_node]"
        "\<lparr>timestamps = [Aware 1577836800000000], contributors = [(''bob'', 1)], tags_counter = [(''shop'', 2)],
          contrib_timestamps = [(''bob'', [Aware 1577836800000000])]\<rparr>" "''shop''"
        "\<lparr>oldest = Aware 1577836800000000, newest = Aware 1577836800000000, top_contribs = [(''bob'', 1)],
          top_tags = [(''shop'', 2)], lifespan_ranked = [(''bob'', 0)]\<rparr>"]
    keyed_scan keyed_analysis
  by (simp add: counter_get_def)

end
